theory Spec2Isabelle
  imports Complex_Main
begin

section \<open>Python values and exceptions\<close>

text \<open>
  The script \<^verbatim>\<open>experiment.py\<close> handles two kinds of Python text values: \<^verbatim>\<open>bytes\<close>
  objects, which come from the serial port (\<^verbatim>\<open>b'C'\<close>), and \<^verbatim>\<open>str\<close> objects, which
  the script makes itself (\<^verbatim>\<open>'B'\<close>, or \<^verbatim>\<open>in_byte.decode('utf-8')\<close>). Python 3 never
  finds a \<^verbatim>\<open>str\<close> equal to a \<^verbatim>\<open>bytes\<close>, whatever their contents, so the two are
  the two constructors of one datatype and Python's \<^verbatim>\<open>==\<close> is HOL's equality on it.
  A byte is a \<^typ>\<open>char\<close> (HOL's characters are the 256 octets).
\<close>

type_synonym bytes = "char list"

datatype pyobj = Str string | Bytes bytes

text \<open>
  \<^verbatim>\<open>bytes.decode('utf-8')\<close>. The script applies it to \<^verbatim>\<open>b'S'\<close> and \<^verbatim>\<open>b'C'\<close> only
  (line 285 guards both calls), where UTF-8 decoding keeps the code points.
\<close>

definition decode :: "bytes \<Rightarrow> pyobj" where
  "decode bs = Str bs"

text \<open>
  The exceptions the modelled code can raise. The three \<^verbatim>\<open>Exception(...)\<close> objects of the
  handshake differ in their message only; each message is a constructor that carries the
  value formatted into it.
\<close>

datatype error =
    IndexError
  | ValueError
  | NameError
  | SerialException
  | Exception_non_ready bytes
  | Exception_unexpected_response bytes
  | Exception_no_response
  | InsufficientData

text \<open>
  \<^const>\<open>InsufficientData\<close> is the error the specification asks of the score computation.
  No line of the script raises it; it is in the type so that this can be said.
\<close>

text \<open>
  A computation that may raise and may never return has a result of type
  \<open>(error + 'a) option\<close>: \<open>None\<close> is "never returns", \<open>Some (Inl e)\<close> is "raises \<open>e\<close>",
  \<open>Some (Inr x)\<close> is "returns \<open>x\<close>".
\<close>

section \<open>The serial link\<close>

text \<open>
  The link is the input buffer of the host (\<open>in_buf\<close>: bytes that have arrived and are
  not read yet), what the device has yet to send (\<open>wire\<close>), the bytes written to the
  device (\<open>out_buf\<close>) and whether the port is open. The device's behaviour in time is the
  list \<open>wire\<close> of chunks: its \<open>n\<close>-th chunk is what arrives between the \<open>n\<close>-th and the
  next time the host looks at the port (a chunk may be empty). When \<open>wire\<close> is used up
  the device stays silent for ever.
\<close>

record serial =
  in_buf :: bytes
  wire :: "bytes list"
  out_buf :: bytes
  is_open :: bool

definition deliver :: "serial \<Rightarrow> serial" where
  "deliver ser =
     (case wire ser of
        [] \<Rightarrow> ser
      | c # cs \<Rightarrow> ser\<lparr>in_buf := in_buf ser @ c, wire := cs\<rparr>)"

text \<open>
  \<^verbatim>\<open>serial.in_waiting\<close>: the number of buffered bytes, now. Looking at the port is what
  lets time pass in the model: the next chunk of the device has arrived.
\<close>

definition in_waiting :: "serial \<Rightarrow> nat \<times> serial" where
  "in_waiting ser = (let ser' = deliver ser in (length (in_buf ser'), ser'))"

text \<open>
  \<^verbatim>\<open>serial.read()\<close>: one byte. The script calls it only after \<^verbatim>\<open>in_waiting > 0\<close>; on an
  empty buffer pySerial returns \<^verbatim>\<open>b''\<close> when the timeout of one second is over.
\<close>

definition read :: "serial \<Rightarrow> bytes \<times> serial" where
  "read ser =
     (case in_buf ser of
        [] \<Rightarrow> ([], ser)
      | b # bs \<Rightarrow> ([b], ser\<lparr>in_buf := bs\<rparr>))"

text \<open>
  \<^verbatim>\<open>serial.reset_input_buffer()\<close>: drops everything that has arrived until now, the
  next chunk of the device included.
\<close>

definition reset_input_buffer :: "serial \<Rightarrow> serial" where
  "reset_input_buffer ser = (deliver ser)\<lparr>in_buf := []\<rparr>"

text \<open>\<^verbatim>\<open>serial.write\<close> is \<open>write_bytes\<close> here (\<open>write\<close> is a keyword of Isabelle).\<close>

definition write_bytes :: "serial \<Rightarrow> bytes \<Rightarrow> serial" where
  "write_bytes ser bs = ser\<lparr>out_buf := out_buf ser @ bs\<rparr>"

definition close :: "serial \<Rightarrow> serial" where
  "close ser = ser\<lparr>is_open := False\<rparr>"

text \<open>
  A loop that polls \<^verbatim>\<open>in_waiting\<close> and does nothing when it is zero never ends once the
  buffer is empty and the device is silent.
\<close>

definition silent :: "serial \<Rightarrow> bool" where
  "silent ser \<longleftrightarrow> in_buf ser = [] \<and> wire ser = []"

text \<open>What the host can still read, and the measure by which the polling loops end.\<close>

definition stream :: "serial \<Rightarrow> bytes" where
  "stream ser = in_buf ser @ concat (wire ser)"

definition pending :: "serial \<Rightarrow> nat" where
  "pending ser = length (wire ser) + length (stream ser)"

lemma stream_deliver [simp]: "stream (deliver ser) = stream ser"
  by (simp add: deliver_def stream_def split: list.splits)

lemma wire_deliver: "wire (deliver ser) = tl (wire ser)"
  by (simp add: deliver_def split: list.splits)

lemma out_buf_deliver [simp]: "out_buf (deliver ser) = out_buf ser"
  by (simp add: deliver_def split: list.splits)

lemma is_open_deliver [simp]: "is_open (deliver ser) = is_open ser"
  by (simp add: deliver_def split: list.splits)

lemma pending_deliver: "pending (deliver ser) \<le> pending ser"
  by (simp add: pending_def wire_deliver)

lemma pending_deliver_less: "wire ser \<noteq> [] \<Longrightarrow> pending (deliver ser) < pending ser"
  by (cases "wire ser") (simp_all add: pending_def wire_deliver)

lemma read_nonempty:
  assumes "in_buf ser \<noteq> []" and "read ser = (b, ser2)"
  shows "b = [hd (in_buf ser)]" and "ser2 = ser\<lparr>in_buf := tl (in_buf ser)\<rparr>"
  using assms by (auto simp: read_def split: list.splits)

lemma pending_read:
  assumes "in_buf ser \<noteq> []" and "read ser = (b, ser2)"
  shows "pending ser2 < pending ser"
proof -
  from assms have "ser2 = ser\<lparr>in_buf := tl (in_buf ser)\<rparr>"
    by (rule read_nonempty)
  with assms(1) show ?thesis
    by (cases "in_buf ser") (simp_all add: pending_def stream_def)
qed

lemma pending_in_waiting:
  "in_waiting ser = (n, ser1) \<Longrightarrow> pending ser1 \<le> pending ser"
  by (auto simp: in_waiting_def Let_def pending_deliver)

lemma pending_poll_read:
  assumes "in_waiting ser = (n, ser1)" and "0 < n" and "read ser1 = (b, ser2)"
  shows "pending ser2 < pending ser"
proof -
  from assms(1) have "ser1 = deliver ser" and "n = length (in_buf ser1)"
    by (auto simp: in_waiting_def Let_def)
  with assms(2) have "in_buf ser1 \<noteq> []"
    by auto
  then have "pending ser2 < pending ser1"
    using assms(3) by (rule pending_read)
  also have "pending ser1 \<le> pending ser"
    using assms(1) by (rule pending_in_waiting)
  finally show ?thesis .
qed

lemma pending_poll_empty:
  assumes "\<not> silent ser" and "in_waiting ser = (n, ser1)" and "\<not> 0 < n"
  shows "pending ser1 < pending ser"
proof -
  from assms(2) have ser1: "ser1 = deliver ser" and "n = length (in_buf ser1)"
    by (auto simp: in_waiting_def Let_def)
  with assms(3) have "in_buf (deliver ser) = []"
    by simp
  then have "wire ser \<noteq> []"
    using assms(1) by (auto simp: deliver_def silent_def)
  then show ?thesis
    unfolding ser1 by (rule pending_deliver_less)
qed

section \<open>read\_timestamp\<close>

text \<open>
  \<^verbatim>\<open>
  timestamp = b''
  while len(timestamp) < nbytes:
      if serial.in_waiting > 0:
          timestamp += serial.read()
  timestamp = int.from_bytes(timestamp, byteorder, signed=False)
  return timestamp
  \<close>
  The loop has no timeout. It returns when \<open>nbytes\<close> bytes have come and spins for ever
  when the device falls silent before.
\<close>

function read_timestamp_loop :: "serial \<Rightarrow> nat \<Rightarrow> bytes \<Rightarrow> (bytes \<times> serial) option" where
  "read_timestamp_loop ser nbytes timestamp =
     (if length timestamp < nbytes then
        (if silent ser then None
         else
           (case in_waiting ser of (n, ser1) \<Rightarrow>
              if 0 < n then
                (case read ser1 of (b, ser2) \<Rightarrow>
                   read_timestamp_loop ser2 nbytes (timestamp @ b))
              else read_timestamp_loop ser1 nbytes timestamp))
      else Some (timestamp, ser))"
  by pat_completeness auto
termination
proof (relation "measure (\<lambda>(ser, nbytes, timestamp). pending ser)")
  show "wf (measure (\<lambda>(ser, nbytes, timestamp). pending ser))"
    by simp
next
  fix ser :: serial and nbytes :: nat and timestamp :: bytes and x n ser1 xa b ser2
  assume "\<not> silent ser" "(n, ser1) = in_waiting ser" "0 < n" "(b, ser2) = read ser1"
  then show "((ser2, nbytes, timestamp @ b), ser, nbytes, timestamp)
      \<in> measure (\<lambda>(ser, nbytes, timestamp). pending ser)"
    using pending_poll_read [of ser n ser1 b ser2] by simp
next
  fix ser :: serial and nbytes :: nat and timestamp :: bytes and x n ser1
  assume "\<not> silent ser" "(n, ser1) = in_waiting ser" "\<not> 0 < n"
  then show "((ser1, nbytes, timestamp), ser, nbytes, timestamp)
      \<in> measure (\<lambda>(ser, nbytes, timestamp). pending ser)"
    using pending_poll_empty [of ser n ser1] by simp
qed

declare read_timestamp_loop.simps [simp del]

text \<open>\<^verbatim>\<open>int.from_bytes(timestamp, 'little', signed=False)\<close>\<close>

definition int_from_bytes :: "bytes \<Rightarrow> int" where
  "int_from_bytes bs = foldr (\<lambda>c acc. of_char c + 256 * acc) bs 0"

lemma int_from_bytes_examples:
  "int_from_bytes [CHR 0x01, CHR 0x00, CHR 0x00, CHR 0x00] = 1"
  "int_from_bytes [CHR 0xFF, CHR 0xFF, CHR 0xFF, CHR 0xFF] = 4294967295"
  by (simp_all add: int_from_bytes_def)

definition read_timestamp :: "serial \<Rightarrow> (int \<times> serial) option" where
  "read_timestamp ser =
     (case read_timestamp_loop ser 4 [] of
        None \<Rightarrow> None
      | Some (timestamp, ser') \<Rightarrow> Some (int_from_bytes timestamp, ser'))"

lemma pending_read_timestamp_loop:
  "read_timestamp_loop ser nbytes timestamp = Some (ts, ser') \<Longrightarrow> pending ser' \<le> pending ser"
proof (induction ser nbytes timestamp rule: read_timestamp_loop.induct)
  case (1 ser nbytes timestamp)
  show ?case
  proof (cases "length timestamp < nbytes")
    case False
    with "1.prems" show ?thesis
      by (simp add: read_timestamp_loop.simps [of ser nbytes timestamp])
  next
    case more: True
    show ?thesis
    proof (cases "silent ser")
      case True
      with more "1.prems" show ?thesis
        by (simp add: read_timestamp_loop.simps [of ser nbytes timestamp])
    next
      case False
      obtain n ser1 where poll: "in_waiting ser = (n, ser1)"
        by (cases "in_waiting ser")
      obtain b ser2 where rd: "read ser1 = (b, ser2)"
        by (cases "read ser1")
      show ?thesis
      proof (cases "0 < n")
        case True
        with more False poll rd "1.prems"
        have "read_timestamp_loop ser2 nbytes (timestamp @ b) = Some (ts, ser')"
          by (simp add: read_timestamp_loop.simps [of ser nbytes timestamp])
        with "1.IH"(1) [OF more False poll [symmetric] True rd [symmetric]]
        have "pending ser' \<le> pending ser2" .
        also have "pending ser2 < pending ser"
          using poll True rd by (rule pending_poll_read)
        finally show ?thesis by simp
      next
        case no: False
        with more False poll "1.prems"
        have "read_timestamp_loop ser1 nbytes timestamp = Some (ts, ser')"
          by (simp add: read_timestamp_loop.simps [of ser nbytes timestamp])
        with "1.IH"(2) [OF more False poll [symmetric] no]
        have "pending ser' \<le> pending ser1" .
        also have "pending ser1 \<le> pending ser"
          using poll by (rule pending_in_waiting)
        finally show ?thesis .
      qed
    qed
  qed
qed

lemma pending_read_timestamp:
  "read_timestamp ser = Some (t, ser') \<Longrightarrow> pending ser' \<le> pending ser"
  by (auto simp: read_timestamp_def split: option.splits dest: pending_read_timestamp_loop)

section \<open>The variables of the script\<close>

text \<open>
  The script is one module: its lists and the current phase are module-level variables,
  shared by the tap-counting task (``SPR'', lines 178 to 222) and the trials of the main
  task (lines 237 to 348). \<open>tap_types\<close> holds \<^verbatim>\<open>str\<close> objects: \<^verbatim>\<open>'P'\<close> in the SPR
  task, the value of \<open>phase\<close> in the main task.
\<close>

record vars =
  phase :: pyobj
  tone_times :: "int list"
  tap_types :: "pyobj list"
  tap_times :: "int list"
  release_times :: "int list"

text \<open>\<^verbatim>\<open>xs[-1] = x\<close>: Python raises \<^verbatim>\<open>IndexError\<close> on an empty list.\<close>

definition set_last :: "'a list \<Rightarrow> 'a \<Rightarrow> error + 'a list" where
  "set_last xs x = (if xs = [] then Inl IndexError else Inr (xs[length xs - 1 := x]))"

text \<open>How one pass through the body of a \<^verbatim>\<open>while\<close> loop ends.\<close>

datatype 'a flow = Next 'a | Break 'a

section \<open>The tap-counting task\<close>

definition nspr_taps :: nat where
  "nspr_taps = 30"

text \<open>
  \<^verbatim>\<open>
  while len(release_times) < nspr_taps:
      if arduino_ser.in_waiting > 0:
          in_byte = arduino_ser.read()
          if in_byte == b'T':
              tap_types.append('P')
              tap_times.append(read_timestamp(arduino_ser))
          elif in_byte == b'R':
              release_times.append(read_timestamp(arduino_ser))
  \<close>
  \<open>spr_iteration\<close> is the body, \<open>spr_loop\<close> the loop. A byte that is neither \<^verbatim>\<open>T\<close> nor
  \<^verbatim>\<open>R\<close> is read and dropped.
\<close>

definition spr_iteration :: "vars \<Rightarrow> serial \<Rightarrow> (vars \<times> serial) option" where
  "spr_iteration v ser =
     (case in_waiting ser of (n, ser1) \<Rightarrow>
        if 0 < n then
          (case read ser1 of (in_byte, ser2) \<Rightarrow>
             if in_byte = ''T'' then
               (case read_timestamp ser2 of
                  None \<Rightarrow> None
                | Some (t, ser3) \<Rightarrow>
                    Some (v\<lparr>tap_types := tap_types v @ [Str ''P''],
                            tap_times := tap_times v @ [t]\<rparr>, ser3))
             else if in_byte = ''R'' then
               (case read_timestamp ser2 of
                  None \<Rightarrow> None
                | Some (t, ser3) \<Rightarrow>
                    Some (v\<lparr>release_times := release_times v @ [t]\<rparr>, ser3))
             else Some (v, ser2))
        else Some (v, ser1))"

lemma pending_spr_iteration:
  assumes "\<not> silent ser" and "spr_iteration v ser = Some (v', ser')"
  shows "pending ser' < pending ser"
proof -
  obtain n ser1 where poll: "in_waiting ser = (n, ser1)"
    by (cases "in_waiting ser")
  obtain b ser2 where rd: "read ser1 = (b, ser2)"
    by (cases "read ser1")
  show ?thesis
  proof (cases "0 < n")
    case True
    with poll have less: "pending ser2 < pending ser"
      using rd by (rule pending_poll_read)
    from assms(2) poll rd True have "pending ser' \<le> pending ser2"
      by (auto simp: spr_iteration_def split: if_splits option.splits
          dest: pending_read_timestamp)
    with less show ?thesis by simp
  next
    case False
    with assms(2) poll have "ser' = ser1"
      by (simp add: spr_iteration_def)
    with assms(1) poll False show ?thesis
      by (simp add: pending_poll_empty)
  qed
qed

function spr_loop :: "vars \<Rightarrow> serial \<Rightarrow> (vars \<times> serial) option" where
  "spr_loop v ser =
     (if length (release_times v) < nspr_taps then
        (if silent ser then None
         else
           (case spr_iteration v ser of
              None \<Rightarrow> None
            | Some (v', ser') \<Rightarrow> spr_loop v' ser'))
      else Some (v, ser))"
  by pat_completeness auto
termination
proof (relation "measure (\<lambda>(v, ser). pending ser)")
  show "wf (measure (\<lambda>(v, ser). pending ser))"
    by simp
next
  fix v :: vars and ser :: serial and x2 v' ser'
  assume "\<not> silent ser" "spr_iteration v ser = Some x2" "(v', ser') = x2"
  then show "((v', ser'), v, ser) \<in> measure (\<lambda>(v, ser). pending ser)"
    using pending_spr_iteration [of ser v v' ser'] by auto
qed

declare spr_loop.simps [simp del]

text \<open>
  The task, from the preparation of the lists (lines 190 to 192) to the reset of the
  input buffer (line 214):
  \<^verbatim>\<open>
  tap_types = []; tap_times = []; release_times = []
  arduino_ser.write(b'P')
  while ...
  arduino_ser.write(b'I')
  win.flip()
  arduino_ser.reset_input_buffer()
  \<close>
  What the device sends while the stop byte is written and the window is flipped is the
  chunk that the reset drops.
\<close>

definition spr_start :: "vars \<Rightarrow> vars" where
  "spr_start v = v\<lparr>tap_types := [], tap_times := [], release_times := []\<rparr>"

definition spr_task :: "vars \<Rightarrow> serial \<Rightarrow> (vars \<times> serial) option" where
  "spr_task v ser =
     (case spr_loop (spr_start v) (write_bytes ser ''P'') of
        None \<Rightarrow> None
      | Some (v', ser') \<Rightarrow> Some (v', reset_input_buffer (write_bytes ser' ''I'')))"

section \<open>The synchronization-continuation trial\<close>

text \<open>
  \<^verbatim>\<open>
  while True:
      if arduino_ser.in_waiting > 0:
          in_byte = arduino_ser.read()
          if in_byte in (b'S', b'C'):
              if in_byte == b'C' and phase != b'C':
                  tap_types[-1] = in_byte.decode('utf-8')
              phase = in_byte.decode('utf-8')
              tone_times.append(read_timestamp(arduino_ser))
          elif in_byte == b'T':
              tap_types.append(phase)
              tap_times.append(read_timestamp(arduino_ser))
          elif in_byte == b'R':
              release_times.append(read_timestamp(arduino_ser))
          elif in_byte == b'I':
              arduino_ser.reset_input_buffer()
              break
  \<close>
  \<open>phase\<close> holds a \<^verbatim>\<open>str\<close> and line 289 compares it with the \<^verbatim>\<open>bytes\<close> object
  \<^verbatim>\<open>b'C'\<close>; the model keeps the comparison as it is written.
\<close>

definition sc_iteration :: "vars \<Rightarrow> serial \<Rightarrow> (error + (vars \<times> serial) flow) option" where
  "sc_iteration v ser =
     (case in_waiting ser of (n, ser1) \<Rightarrow>
        if 0 < n then
          (case read ser1 of (in_byte, ser2) \<Rightarrow>
             if in_byte = ''S'' \<or> in_byte = ''C'' then
               (case (if in_byte = ''C'' \<and> phase v \<noteq> Bytes ''C''
                      then set_last (tap_types v) (decode in_byte)
                      else Inr (tap_types v)) of
                  Inl e \<Rightarrow> Some (Inl e)
                | Inr tap_types' \<Rightarrow>
                    (case read_timestamp ser2 of
                       None \<Rightarrow> None
                     | Some (t, ser3) \<Rightarrow>
                         Some (Inr (Next (v\<lparr>tap_types := tap_types',
                                            phase := decode in_byte,
                                            tone_times := tone_times v @ [t]\<rparr>, ser3)))))
             else if in_byte = ''T'' then
               (case read_timestamp ser2 of
                  None \<Rightarrow> None
                | Some (t, ser3) \<Rightarrow>
                    Some (Inr (Next (v\<lparr>tap_types := tap_types v @ [phase v],
                                       tap_times := tap_times v @ [t]\<rparr>, ser3))))
             else if in_byte = ''R'' then
               (case read_timestamp ser2 of
                  None \<Rightarrow> None
                | Some (t, ser3) \<Rightarrow>
                    Some (Inr (Next (v\<lparr>release_times := release_times v @ [t]\<rparr>, ser3))))
             else if in_byte = ''I'' then
               Some (Inr (Break (v, reset_input_buffer ser2)))
             else Some (Inr (Next (v, ser2))))
        else Some (Inr (Next (v, ser1))))"

lemma pending_sc_iteration:
  assumes "\<not> silent ser" and "sc_iteration v ser = Some (Inr (Next (v', ser')))"
  shows "pending ser' < pending ser"
proof -
  obtain n ser1 where poll: "in_waiting ser = (n, ser1)"
    by (cases "in_waiting ser")
  obtain b ser2 where rd: "read ser1 = (b, ser2)"
    by (cases "read ser1")
  show ?thesis
  proof (cases "0 < n")
    case True
    with poll have less: "pending ser2 < pending ser"
      using rd by (rule pending_poll_read)
    from assms(2) poll rd True have "pending ser' \<le> pending ser2"
      by (auto simp: sc_iteration_def split: if_splits option.splits sum.splits
          dest: pending_read_timestamp)
    with less show ?thesis by simp
  next
    case False
    with assms(2) poll have "ser' = ser1"
      by (simp add: sc_iteration_def)
    with assms(1) poll False show ?thesis
      by (simp add: pending_poll_empty)
  qed
qed

function sc_loop :: "vars \<Rightarrow> serial \<Rightarrow> (error + vars \<times> serial) option" where
  "sc_loop v ser =
     (if silent ser then None
      else
        (case sc_iteration v ser of
           None \<Rightarrow> None
         | Some (Inl e) \<Rightarrow> Some (Inl e)
         | Some (Inr (Break r)) \<Rightarrow> Some (Inr r)
         | Some (Inr (Next (v', ser'))) \<Rightarrow> sc_loop v' ser'))"
  by pat_completeness auto
termination
proof (relation "measure (\<lambda>(v, ser). pending ser)")
  show "wf (measure (\<lambda>(v, ser). pending ser))"
    by simp
next
  fix v :: vars and ser :: serial and x2 b x1 v' ser'
  assume "\<not> silent ser" "sc_iteration v ser = Some x2" "x2 = Inr b" "b = Next x1"
    "(v', ser') = x1"
  then show "((v', ser'), v, ser) \<in> measure (\<lambda>(v, ser). pending ser)"
    using pending_sc_iteration [of ser v v' ser'] by auto
qed

declare sc_loop.simps [simp del]

text \<open>
  The trial from line 256 to the end of the loop: the lists are emptied, the command is
  written (\<^verbatim>\<open>arduino_ser.write(b'B%i%i' % (octave, ioi))\<close>; \<open>params\<close> is the bytes of
  the two formatted numbers), \<^verbatim>\<open>phase = 'B'\<close>, and the loop runs.
\<close>

definition trial_start :: "vars \<Rightarrow> vars" where
  "trial_start v =
     v\<lparr>tone_times := [], tap_types := [], tap_times := [], release_times := [],
       phase := Str ''B''\<rparr>"

definition sc_task :: "bytes \<Rightarrow> vars \<Rightarrow> serial \<Rightarrow> (error + vars \<times> serial) option" where
  "sc_task params v ser = sc_loop (trial_start v) (write_bytes ser (''B'' @ params))"

section \<open>The score\<close>

text \<open>
  \<^verbatim>\<open>
  cont_times = np.array(tap_times)[np.array(tap_types) == 'C']
  cont_score = int(np.diff(cont_times).std())
  \<close>
  Indexing with a boolean mask keeps the elements at the positions where the mask is
  true; numpy raises \<^verbatim>\<open>IndexError\<close> when mask and array differ in length.
\<close>

definition cont_times :: "vars \<Rightarrow> error + int list" where
  "cont_times v =
     (if length (tap_types v) \<noteq> length (tap_times v) then Inl IndexError
      else Inr (map snd (filter (\<lambda>(ty, t). ty = Str ''C'') (zip (tap_types v) (tap_times v)))))"

text \<open>\<^verbatim>\<open>np.diff(a)\<close>: \<open>out[i] = a[i+1] - a[i]\<close>.\<close>

definition diff :: "int list \<Rightarrow> int list" where
  "diff a = map (\<lambda>(x, y). y - x) (zip a (tl a))"

text \<open>
  \<^verbatim>\<open>ndarray.std()\<close> with its default \<^verbatim>\<open>ddof=0\<close>: the mean of the array, the mean of
  the squared deviations from it, the square root of that. numpy computes in 64-bit
  floating point; the model computes in the real numbers, so it says what the score is
  up to the rounding of those operations. On an empty array the means are \<open>0/0\<close>:
  numpy warns and returns NaN, which is the \<open>None\<close> here.
\<close>

definition mean :: "real list \<Rightarrow> real" where
  "mean a = sum_list a / real (length a)"

definition std :: "real list \<Rightarrow> real option" where
  "std a =
     (if a = [] then None
      else Some (sqrt (mean (map (\<lambda>x. (x - mean a) * (x - mean a)) a))))"

text \<open>
  \<^verbatim>\<open>int(x)\<close> of a float: truncation towards zero; \<^verbatim>\<open>int(nan)\<close> raises
  \<^verbatim>\<open>ValueError: cannot convert float NaN to integer\<close>.
\<close>

definition int_of_float :: "real option \<Rightarrow> error + int" where
  "int_of_float x =
     (case x of
        None \<Rightarrow> Inl ValueError
      | Some r \<Rightarrow> Inr (if 0 \<le> r then \<lfloor>r\<rfloor> else \<lceil>r\<rceil>))"

definition cont_score :: "vars \<Rightarrow> error + int" where
  "cont_score v =
     (case cont_times v of
        Inl e \<Rightarrow> Inl e
      | Inr ct \<Rightarrow> int_of_float (std (map real_of_int (diff ct))))"

section \<open>The connection test\<close>

text \<open>
  \<^verbatim>\<open>serial.readline()\<close> on a port opened with \<^verbatim>\<open>timeout=1\<close>: the bytes up to and
  with the next line feed, or what has come when the timeout is over (\<^verbatim>\<open>b''\<close> when
  nothing has).
\<close>

fun split_line :: "bytes \<Rightarrow> bytes \<times> bytes" where
  "split_line [] = ([], [])"
| "split_line (c # cs) =
     (if c = CHR 0x0A then ([c], cs)
      else (case split_line cs of (line, rest) \<Rightarrow> (c # line, rest)))"

definition readline :: "serial \<Rightarrow> bytes \<times> serial" where
  "readline ser =
     (let ser' = deliver ser
      in case split_line (in_buf ser') of (line, rest) \<Rightarrow> (line, ser'\<lparr>in_buf := rest\<rparr>))"

lemma split_line_append: "split_line bs = (line, rest) \<Longrightarrow> bs = line @ rest"
  by (induction bs arbitrary: line rest) (auto split: if_splits prod.splits)

lemma pending_readline:
  assumes "readline ser = (message, ser')" and "message \<noteq> []"
  shows "pending ser' < pending ser"
proof -
  obtain line rest where sp: "split_line (in_buf (deliver ser)) = (line, rest)"
    by (cases "split_line (in_buf (deliver ser))")
  with assms(1) have "message = line" and ser': "ser' = (deliver ser)\<lparr>in_buf := rest\<rparr>"
    by (simp_all add: readline_def Let_def)
  with sp have "in_buf (deliver ser) = message @ rest"
    by (simp add: split_line_append)
  with assms(2) ser' have "pending ser' < pending (deliver ser)"
    by (cases message) (simp_all add: pending_def stream_def)
  also have "pending (deliver ser) \<le> pending ser"
    by (rule pending_deliver)
  finally show ?thesis .
qed

text \<open>
  \<^verbatim>\<open>
  ready = False
  message = None
  all_messages = b''
  while not message == b'':
      message = arduino_ser.readline()
      all_messages += message
      if message == b'Ready!\r\n':
          ready = True
  \<close>
\<close>

definition ready_banner :: bytes where
  "ready_banner = ''Ready!'' @ [CHR 0x0D, CHR 0x0A]"

function banner_loop :: "serial \<Rightarrow> bool \<Rightarrow> bytes \<Rightarrow> bool \<times> bytes \<times> serial" where
  "banner_loop ser ready all_messages =
     (case readline ser of (message, ser') \<Rightarrow>
        if message \<noteq> [] then
          banner_loop ser' (if message = ready_banner then True else ready)
            (all_messages @ message)
        else (ready, all_messages @ message, ser'))"
  by pat_completeness auto
termination
proof (relation "measure (\<lambda>(ser, ready, all_messages). pending ser)")
  show "wf (measure (\<lambda>(ser, ready, all_messages). pending ser))"
    by simp
next
  fix ser :: serial and ready :: bool and all_messages message :: bytes and ser' :: serial
  assume "(message, ser') = readline ser" "message \<noteq> []"
  then show "((ser', (if message = ready_banner then True else ready), all_messages @ message),
       ser, ready, all_messages) \<in> measure (\<lambda>(ser, ready, all_messages). pending ser)"
    using pending_readline [of ser message ser'] by simp
qed

declare banner_loop.simps [simp del]

text \<open>
  \<^verbatim>\<open>
  for i in range(5):
      ptb.WaitSecs(1)
      if arduino_ser.in_waiting > 0:
          in_byte = arduino_ser.read()
          if in_byte == b'I':
              break
          else:
              raise Exception('Computer received an unexpected response: %s' % in_byte)
  else:
      raise Exception('Computer did not receive a response.')
  \<close>
  The first argument counts the passes that are left. The result is the exception
  raised, if any, and the link as the loop leaves it.
\<close>

fun hello_loop :: "nat \<Rightarrow> serial \<Rightarrow> error option \<times> serial" where
  "hello_loop 0 ser = (Some Exception_no_response, ser)"
| "hello_loop (Suc i) ser =
     (case in_waiting ser of (n, ser1) \<Rightarrow>
        if 0 < n then
          (case read ser1 of (in_byte, ser2) \<Rightarrow>
             if in_byte = ''I'' then (None, ser2)
             else (Some (Exception_unexpected_response in_byte), ser2))
        else hello_loop i ser1)"

text \<open>Lines 145 to 156: the input is cleared, \<^verbatim>\<open>H\<close> is written, the answer is awaited.\<close>

definition hello_ack :: "serial \<Rightarrow> error option \<times> serial" where
  "hello_ack ser = hello_loop 5 (write_bytes (reset_input_buffer ser) ''H'')"

text \<open>Lines 132 to 156, the body of the \<^verbatim>\<open>try\<close> block after the port is open.\<close>

definition handshake :: "serial \<Rightarrow> error option \<times> serial" where
  "handshake ser =
     (case banner_loop ser False [] of (ready, all_messages, ser') \<Rightarrow>
        if \<not> ready then (Some (Exception_non_ready all_messages), ser')
        else hello_ack ser')"

text \<open>
  The script's view of the link and the window: \<open>arduino_ser\<close> is \<open>None\<close> as long as
  the name is not bound. The \<^verbatim>\<open>try\<close> statement of lines 127 to 166 ends in one of
  three ways: the script goes on with the link open, the handler runs to its
  \<^verbatim>\<open>core.quit()\<close>, or an exception leaves the handler.
  \<^verbatim>\<open>
  try:
      arduino_ser = ser.Serial(serial_port, 9600, timeout=1)
      ...
  except Exception as e:
      ...
      arduino_ser.close()
      win.close()
      core.quit()
  \<close>
  The argument of \<open>connect\<close> is what \<^verbatim>\<open>ser.Serial(...)\<close> finds: \<open>None\<close> when the port
  cannot be opened (pySerial raises \<^verbatim>\<open>SerialException\<close>), the device behind the port
  otherwise.
\<close>

record host =
  arduino_ser :: "serial option"
  win_open :: bool

datatype ending = Connected | Quit | Uncaught error

definition handler :: "error \<Rightarrow> host \<Rightarrow> ending \<times> host" where
  "handler e h =
     (case arduino_ser h of
        None \<Rightarrow> (Uncaught NameError, h)
      | Some ser \<Rightarrow> (Quit, h\<lparr>arduino_ser := Some (close ser), win_open := False\<rparr>))"

definition connect :: "serial option \<Rightarrow> ending \<times> host" where
  "connect port =
     (case port of
        None \<Rightarrow> handler SerialException \<lparr>arduino_ser = None, win_open = True\<rparr>
      | Some device \<Rightarrow>
          (case handshake (device\<lparr>is_open := True\<rparr>) of
             (None, ser) \<Rightarrow> (Connected, \<lparr>arduino_ser = Some ser, win_open = True\<rparr>)
           | (Some e, ser) \<Rightarrow> handler e \<lparr>arduino_ser = Some ser, win_open = True\<rparr>))"

section \<open>The stream of the device as a list of events\<close>

text \<open>
  The device sends a tag byte and, after every tag but \<^verbatim>\<open>I\<close>, a timestamp of four
  bytes. An \<open>event\<close> is one such message; \<open>encode\<close> gives its bytes on the wire.
\<close>

datatype event = Sync_tone bytes | Cont_tone bytes | Tap bytes | Release bytes

fun encode :: "event \<Rightarrow> bytes" where
  "encode (Sync_tone ts) = ''S'' @ ts"
| "encode (Cont_tone ts) = ''C'' @ ts"
| "encode (Tap ts) = ''T'' @ ts"
| "encode (Release ts) = ''R'' @ ts"

fun payload :: "event \<Rightarrow> bytes" where
  "payload (Sync_tone ts) = ts"
| "payload (Cont_tone ts) = ts"
| "payload (Tap ts) = ts"
| "payload (Release ts) = ts"

text \<open>Every event of the list carries a timestamp of exactly four bytes.\<close>

definition framed :: "event list \<Rightarrow> bool" where
  "framed evs \<longleftrightarrow> list_all (\<lambda>e. length (payload e) = 4) evs"

text \<open>Reading changes neither what was written to the device nor whether the port is open.\<close>

definition same_link :: "serial \<Rightarrow> serial \<Rightarrow> bool" where
  "same_link ser ser' \<longleftrightarrow> out_buf ser' = out_buf ser \<and> is_open ser' = is_open ser"

lemma same_link_refl [simp]: "same_link ser ser"
  by (simp add: same_link_def)

lemma same_link_trans: "same_link a b \<Longrightarrow> same_link b c \<Longrightarrow> same_link a c"
  by (simp add: same_link_def)

lemma in_waiting_facts:
  assumes "in_waiting ser = (n, ser1)"
  shows "stream ser1 = stream ser" and "same_link ser ser1" and "n = length (in_buf ser1)"
  using assms by (auto simp: in_waiting_def Let_def same_link_def)

lemma in_waiting_zero:
  assumes "in_waiting ser = (n, ser1)" and "\<not> 0 < n"
  shows "in_buf ser1 = []"
  using assms by (auto simp: in_waiting_def Let_def)

lemma read_facts:
  assumes "in_waiting ser = (n, ser1)" and "0 < n" and "read ser1 = (b, ser2)"
    and "stream ser = c # s"
  shows "b = [c]" and "stream ser2 = s" and "same_link ser ser2"
proof -
  from assms(1) have s1: "stream ser1 = stream ser" and l1: "same_link ser ser1"
    and n: "n = length (in_buf ser1)"
    by (rule in_waiting_facts)+
  from n assms(2) obtain a rest where buf: "in_buf ser1 = a # rest"
    by (cases "in_buf ser1") auto
  from s1 assms(4) have "stream ser1 = c # s"
    by simp
  with buf have a: "a = c" and rest: "rest @ concat (wire ser1) = s"
    by (simp_all add: stream_def)
  from buf assms(3) have b: "b = [a]" and ser2: "ser2 = ser1\<lparr>in_buf := rest\<rparr>"
    by (simp_all add: read_def)
  from b a show "b = [c]"
    by simp
  from ser2 rest show "stream ser2 = s"
    by (simp add: stream_def)
  from ser2 l1 show "same_link ser ser2"
    by (simp add: same_link_def)
qed

lemma stream_not_silent: "stream ser \<noteq> [] \<Longrightarrow> \<not> silent ser"
  by (auto simp: stream_def silent_def)

lemma read_timestamp_loop_stream:
  "stream ser = ts @ s \<Longrightarrow> length timestamp + length ts = nbytes \<Longrightarrow>
   \<exists>ser'. read_timestamp_loop ser nbytes timestamp = Some (timestamp @ ts, ser') \<and>
     stream ser' = s \<and> same_link ser ser'"
proof (induction ser nbytes timestamp arbitrary: ts rule: read_timestamp_loop.induct)
  case (1 ser nbytes timestamp)
  show ?case
  proof (cases "length timestamp < nbytes")
    case False
    with "1.prems" have "ts = []"
      by auto
    with False "1.prems" show ?thesis
      by (simp add: read_timestamp_loop.simps [of ser nbytes timestamp])
  next
    case more: True
    with "1.prems" obtain c ts' where ts: "ts = c # ts'"
      by (cases ts) auto
    with "1.prems" have str: "stream ser = c # ts' @ s"
      by simp
    then have awake: "\<not> silent ser"
      by (simp add: stream_not_silent)
    obtain n ser1 where poll: "in_waiting ser = (n, ser1)"
      by (cases "in_waiting ser")
    obtain b ser2 where rd: "read ser1 = (b, ser2)"
      by (cases "read ser1")
    show ?thesis
    proof (cases "0 < n")
      case True
      from poll True rd str have b: "b = [c]" and s2: "stream ser2 = ts' @ s"
        and l2: "same_link ser ser2"
        by (rule read_facts)+
      from "1.prems" ts have "length (timestamp @ b) + length ts' = nbytes"
        by (simp add: b)
      with "1.IH"(1) [OF more awake poll [symmetric] True rd [symmetric] s2]
      obtain ser' where run: "read_timestamp_loop ser2 nbytes (timestamp @ b) = Some ((timestamp @ b) @ ts', ser')"
        and s': "stream ser' = s" and "same_link ser2 ser'"
        by blast
      from l2 this(3) have "same_link ser ser'"
        by (rule same_link_trans)
      moreover from more awake poll True rd run b ts
      have "read_timestamp_loop ser nbytes timestamp = Some (timestamp @ ts, ser')"
        by (simp add: read_timestamp_loop.simps [of ser nbytes timestamp])
      ultimately show ?thesis
        using s' by blast
    next
      case False
      from poll have "stream ser1 = stream ser" and l1: "same_link ser ser1"
        by (rule in_waiting_facts)+
      with "1.prems"(1) have s1: "stream ser1 = ts @ s"
        by simp
      from "1.IH"(2) [OF more awake poll [symmetric] False s1 "1.prems"(2)]
      obtain ser' where run: "read_timestamp_loop ser1 nbytes timestamp = Some (timestamp @ ts, ser')"
        and s': "stream ser' = s" and "same_link ser1 ser'"
        by blast
      from l1 this(3) have "same_link ser ser'"
        by (rule same_link_trans)
      moreover from more awake poll False run
      have "read_timestamp_loop ser nbytes timestamp = Some (timestamp @ ts, ser')"
        by (simp add: read_timestamp_loop.simps [of ser nbytes timestamp])
      ultimately show ?thesis
        using s' by blast
    qed
  qed
qed

lemma read_timestamp_stream:
  assumes "stream ser = ts @ s" and "length ts = 4"
  shows "\<exists>ser'. read_timestamp ser = Some (int_from_bytes ts, ser') \<and>
     stream ser' = s \<and> same_link ser ser'"
proof -
  from assms have "length ([] :: bytes) + length ts = 4"
    by simp
  with assms(1) obtain ser' where "read_timestamp_loop ser 4 [] = Some ([] @ ts, ser')"
    and "stream ser' = s" and "same_link ser ser'"
    using read_timestamp_loop_stream [of ser ts s "[]" 4] by blast
  then show ?thesis
    by (simp add: read_timestamp_def)
qed


subsection \<open>The trial loop on whole events\<close>

text \<open>
  What one pass of the trial loop does with the variables when it has a whole event to
  read, and what a list of events does in order. These functions are not part of the
  script: \<open>sc_iteration_event\<close> and \<open>sc_loop_events\<close> prove that the loop of the script
  computes them, however the bytes of the events are spread over the device's chunks.
\<close>

fun sc_event :: "vars \<Rightarrow> event \<Rightarrow> error + vars" where
  "sc_event v (Sync_tone ts) =
     Inr (v\<lparr>phase := Str ''S'', tone_times := tone_times v @ [int_from_bytes ts]\<rparr>)"
| "sc_event v (Cont_tone ts) =
     (case (if phase v \<noteq> Bytes ''C'' then set_last (tap_types v) (Str ''C'')
            else Inr (tap_types v)) of
        Inl e \<Rightarrow> Inl e
      | Inr tap_types' \<Rightarrow>
          Inr (v\<lparr>tap_types := tap_types', phase := Str ''C'',
                 tone_times := tone_times v @ [int_from_bytes ts]\<rparr>))"
| "sc_event v (Tap ts) =
     Inr (v\<lparr>tap_types := tap_types v @ [phase v],
            tap_times := tap_times v @ [int_from_bytes ts]\<rparr>)"
| "sc_event v (Release ts) =
     Inr (v\<lparr>release_times := release_times v @ [int_from_bytes ts]\<rparr>)"

fun sc_events :: "vars \<Rightarrow> event list \<Rightarrow> error + vars" where
  "sc_events v [] = Inr v"
| "sc_events v (e # es) =
     (case sc_event v e of Inl err \<Rightarrow> Inl err | Inr v' \<Rightarrow> sc_events v' es)"

lemma sc_iteration_idle:
  assumes "in_waiting ser = (n, ser1)" and "\<not> 0 < n"
  shows "sc_iteration v ser = Some (Inr (Next (v, ser1)))"
  using assms by (simp add: sc_iteration_def)

lemma reset_input_buffer_facts:
  shows "in_buf (reset_input_buffer ser) = []"
    and "same_link ser (reset_input_buffer ser)"
    and "\<exists>dropped. stream ser = dropped @ stream (reset_input_buffer ser)"
proof -
  show "in_buf (reset_input_buffer ser) = []"
    by (simp add: reset_input_buffer_def)
  show "same_link ser (reset_input_buffer ser)"
    by (simp add: reset_input_buffer_def same_link_def)
  have "stream (deliver ser) = in_buf (deliver ser) @ stream (reset_input_buffer ser)"
    by (simp add: reset_input_buffer_def stream_def)
  then show "\<exists>dropped. stream ser = dropped @ stream (reset_input_buffer ser)"
    by auto
qed

lemma sc_iteration_end:
  assumes "stream ser = ''I'' @ s" and "in_waiting ser = (n, ser1)" and "0 < n"
  shows "\<exists>ser'. sc_iteration v ser = Some (Inr (Break (v, ser'))) \<and> in_buf ser' = [] \<and>
     same_link ser ser' \<and> (\<exists>dropped. s = dropped @ stream ser')"
proof -
  obtain b ser2 where rd: "read ser1 = (b, ser2)"
    by (cases "read ser1")
  from assms(1) have str: "stream ser = CHR ''I'' # s"
    by simp
  from assms(2,3) rd str have b: "b = ''I''" and s2: "stream ser2 = s" and l2: "same_link ser ser2"
    by (rule read_facts)+
  from assms(2,3) rd b
  have "sc_iteration v ser = Some (Inr (Break (v, reset_input_buffer ser2)))"
    by (simp add: sc_iteration_def)
  moreover have "in_buf (reset_input_buffer ser2) = []"
    by (rule reset_input_buffer_facts)
  moreover have "same_link ser (reset_input_buffer ser2)"
    using l2 reset_input_buffer_facts(2) by (rule same_link_trans)
  moreover have "\<exists>dropped. s = dropped @ stream (reset_input_buffer ser2)"
    using reset_input_buffer_facts(3) [of ser2] s2 by simp
  ultimately show ?thesis
    by blast
qed

lemma sc_iteration_event:
  assumes "stream ser = encode e @ s" and "length (payload e) = 4"
    and "in_waiting ser = (n, ser1)" and "0 < n"
  shows "(case sc_event v e of
            Inl err \<Rightarrow> sc_iteration v ser = Some (Inl err)
          | Inr v' \<Rightarrow> \<exists>ser'. sc_iteration v ser = Some (Inr (Next (v', ser'))) \<and>
              stream ser' = s \<and> same_link ser ser')"
proof -
  obtain b ser2 where rd: "read ser1 = (b, ser2)"
    by (cases "read ser1")
  obtain tag ts where enc: "encode e = tag # ts" and ts: "ts = payload e"
    by (cases e) simp_all
  with assms(1) have str: "stream ser = tag # ts @ s"
    by simp
  from assms(3,4) rd str have b: "b = [tag]" and s2: "stream ser2 = ts @ s"
    and l2: "same_link ser ser2"
    by (rule read_facts)+
  from s2 assms(2) ts obtain ser3 where rt: "read_timestamp ser2 = Some (int_from_bytes ts, ser3)"
    and s3: "stream ser3 = s" and "same_link ser2 ser3"
    using read_timestamp_stream [of ser2 ts s] by auto
  with l2 have l3: "same_link ser ser3"
    by (blast intro: same_link_trans)
  show ?thesis
  proof (cases e)
    case (Sync_tone x)
    with enc ts b have "b = ''S''" and "ts = x"
      by simp_all
    with assms(3,4) rd rt Sync_tone s3 l3 show ?thesis
      by (simp add: sc_iteration_def decode_def)
  next
    case (Cont_tone x)
    with enc ts b have "b = ''C''" and "ts = x"
      by simp_all
    with assms(3,4) rd rt Cont_tone s3 l3 show ?thesis
      by (simp add: sc_iteration_def decode_def split: sum.splits)
  next
    case (Tap x)
    with enc ts b have "b = ''T''" and "ts = x"
      by simp_all
    with assms(3,4) rd rt Tap s3 l3 show ?thesis
      by (simp add: sc_iteration_def)
  next
    case (Release x)
    with enc ts b have "b = ''R''" and "ts = x"
      by simp_all
    with assms(3,4) rd rt Release s3 l3 show ?thesis
      by (simp add: sc_iteration_def)
  qed
qed


lemma sc_loop_events:
  "framed evs \<Longrightarrow> stream ser = concat (map encode evs) @ ''I'' @ s \<Longrightarrow>
   (case sc_events v evs of
      Inl err \<Rightarrow> sc_loop v ser = Some (Inl err)
    | Inr v' \<Rightarrow> \<exists>ser'. sc_loop v ser = Some (Inr (v', ser')) \<and> in_buf ser' = [] \<and>
        same_link ser ser' \<and> (\<exists>dropped. s = dropped @ stream ser'))"
proof (induction v ser arbitrary: evs rule: sc_loop.induct)
  case (1 v ser)
  from "1.prems"(2) have "stream ser \<noteq> []"
    by simp
  then have awake: "\<not> silent ser"
    by (rule stream_not_silent)
  obtain n ser1 where poll: "in_waiting ser = (n, ser1)"
    by (cases "in_waiting ser")
  show ?case
  proof (cases "0 < n")
    case False
    with poll have it: "sc_iteration v ser = Some (Inr (Next (v, ser1)))"
      by (rule sc_iteration_idle)
    from poll have "stream ser1 = stream ser" and l1: "same_link ser ser1"
      by (rule in_waiting_facts)+
    with "1.prems"(2) have s1: "stream ser1 = concat (map encode evs) @ ''I'' @ s"
      by simp
    have loop: "sc_loop v ser = sc_loop v ser1"
      using awake it by (simp add: sc_loop.simps [of v ser])
    from "1.IH" [OF awake it refl refl refl "1.prems"(1) s1] loop l1 show ?thesis
      by (auto split: sum.splits intro: same_link_trans)
  next
    case True
    show ?thesis
    proof (cases evs)
      case Nil
      with "1.prems"(2) have "stream ser = ''I'' @ s"
        by simp
      from sc_iteration_end [OF this poll True, of v] awake Nil show ?thesis
        by (auto simp: sc_loop.simps [of v ser])
    next
      case (Cons e es)
      with "1.prems" have str: "stream ser = encode e @ (concat (map encode es) @ ''I'' @ s)"
        and e: "length (payload e) = 4" and es: "framed es"
        by (simp_all add: framed_def)
      note step = sc_iteration_event [OF str e poll True, of v]
      show ?thesis
      proof (cases "sc_event v e")
        case (Inl err)
        with step awake Cons show ?thesis
          by (simp add: sc_loop.simps [of v ser])
      next
        case (Inr v')
        with step obtain ser' where it: "sc_iteration v ser = Some (Inr (Next (v', ser')))"
          and s': "stream ser' = concat (map encode es) @ ''I'' @ s" and l': "same_link ser ser'"
          by auto
        have loop: "sc_loop v ser = sc_loop v' ser'"
          using awake it by (simp add: sc_loop.simps [of v ser])
        from "1.IH" [OF awake it refl refl refl es s'] loop l' Inr Cons show ?thesis
          by (auto split: sum.splits intro: same_link_trans)
      qed
    qed
  qed
qed


subsection \<open>The tap-counting loop on whole events\<close>

fun is_release :: "event \<Rightarrow> bool" where
  "is_release (Release ts) = True"
| "is_release _ = False"

fun is_press :: "event \<Rightarrow> bool" where
  "is_press (Tap ts) = True"
| "is_press (Release ts) = True"
| "is_press _ = False"

fun spr_event :: "vars \<Rightarrow> event \<Rightarrow> vars" where
  "spr_event v (Tap ts) =
     v\<lparr>tap_types := tap_types v @ [Str ''P''], tap_times := tap_times v @ [int_from_bytes ts]\<rparr>"
| "spr_event v (Release ts) = v\<lparr>release_times := release_times v @ [int_from_bytes ts]\<rparr>"
| "spr_event v _ = v"

lemma spr_iteration_idle:
  assumes "in_waiting ser = (n, ser1)" and "\<not> 0 < n"
  shows "spr_iteration v ser = Some (v, ser1)"
  using assms by (simp add: spr_iteration_def)

lemma spr_iteration_event:
  assumes "stream ser = encode e @ s" and "length (payload e) = 4" and "is_press e"
    and "in_waiting ser = (n, ser1)" and "0 < n"
  shows "\<exists>ser'. spr_iteration v ser = Some (spr_event v e, ser') \<and>
     stream ser' = s \<and> same_link ser ser'"
proof -
  obtain b ser2 where rd: "read ser1 = (b, ser2)"
    by (cases "read ser1")
  obtain tag ts where enc: "encode e = tag # ts" and ts: "ts = payload e"
    by (cases e) simp_all
  with assms(1) have str: "stream ser = tag # ts @ s"
    by simp
  from assms(4,5) rd str have b: "b = [tag]" and s2: "stream ser2 = ts @ s"
    and l2: "same_link ser ser2"
    by (rule read_facts)+
  from s2 assms(2) ts obtain ser3 where rt: "read_timestamp ser2 = Some (int_from_bytes ts, ser3)"
    and s3: "stream ser3 = s" and "same_link ser2 ser3"
    using read_timestamp_stream [of ser2 ts s] by auto
  with l2 have l3: "same_link ser ser3"
    by (blast intro: same_link_trans)
  show ?thesis
  proof (cases e)
    case (Tap x)
    with enc ts b have "b = ''T''" and "ts = x"
      by simp_all
    with assms(4,5) rd rt Tap s3 l3 show ?thesis
      by (simp add: spr_iteration_def)
  next
    case (Release x)
    with enc ts b have "b = ''R''" and "ts = x"
      by simp_all
    with assms(4,5) rd rt Release s3 l3 show ?thesis
      by (simp add: spr_iteration_def)
  next
    case (Sync_tone x)
    with assms(3) show ?thesis by simp
  next
    case (Cont_tone x)
    with assms(3) show ?thesis by simp
  qed
qed

lemma spr_event_releases:
  "length (release_times (spr_event v e)) = length (release_times v) + (if is_release e then 1 else 0)"
  by (cases e) simp_all

lemma spr_loop_events:
  "framed evs \<Longrightarrow> list_all is_press evs \<Longrightarrow> stream ser = concat (map encode evs) @ s \<Longrightarrow>
   length (release_times v) + length (filter is_release evs) = nspr_taps \<Longrightarrow>
   evs = [] \<or> is_release (last evs) \<Longrightarrow>
   \<exists>ser'. spr_loop v ser = Some (foldl spr_event v evs, ser') \<and> stream ser' = s \<and>
     same_link ser ser'"
proof (induction v ser arbitrary: evs rule: spr_loop.induct)
  case (1 v ser)
  show ?case
  proof (cases "length (release_times v) < nspr_taps")
    case False
    with "1.prems"(4) have "length (filter is_release evs) = 0"
      by linarith
    then have none: "filter is_release evs = []"
      by simp
    have "evs = []"
    proof (rule ccontr)
      assume ne: "evs \<noteq> []"
      with "1.prems"(5) have "is_release (last evs)"
        by simp
      moreover from ne have "last evs \<in> set evs"
        by simp
      ultimately have "last evs \<in> set (filter is_release evs)"
        by simp
      with none show False
        by simp
    qed
    with False "1.prems"(3) show ?thesis
      by (simp add: spr_loop.simps [of v ser])
  next
    case more: True
    with "1.prems"(4) have "length (filter is_release evs) \<noteq> 0"
      by linarith
    then have "filter is_release evs \<noteq> []"
      by simp
    then obtain e es where evs: "evs = e # es"
      by (cases evs) auto
    with "1.prems" have str: "stream ser = encode e @ (concat (map encode es) @ s)"
      and e: "length (payload e) = 4" and es: "framed es"
      and pe: "is_press e" and pes: "list_all is_press es"
      by (simp_all add: framed_def)
    have "encode e \<noteq> []"
      by (cases e) simp_all
    with str have "stream ser \<noteq> []"
      by simp
    then have awake: "\<not> silent ser"
      by (rule stream_not_silent)
    obtain n ser1 where poll: "in_waiting ser = (n, ser1)"
      by (cases "in_waiting ser")
    show ?thesis
    proof (cases "0 < n")
      case False
      with poll have it: "spr_iteration v ser = Some (v, ser1)"
        by (rule spr_iteration_idle)
      from poll have "stream ser1 = stream ser" and l1: "same_link ser ser1"
        by (rule in_waiting_facts)+
      with "1.prems"(3) have s1: "stream ser1 = concat (map encode evs) @ s"
        by simp
      have loop: "spr_loop v ser = spr_loop v ser1"
        using more awake it by (simp add: spr_loop.simps [of v ser])
      from "1.IH" [OF more awake it refl "1.prems"(1,2) s1 "1.prems"(4,5)]
      obtain ser' where "spr_loop v ser1 = Some (foldl spr_event v evs, ser')"
        and "stream ser' = s" and "same_link ser1 ser'"
        by blast
      with loop l1 show ?thesis
        by (auto intro: same_link_trans)
    next
      case True
      from spr_iteration_event [OF str e pe poll True, of v]
      obtain ser2 where it: "spr_iteration v ser = Some (spr_event v e, ser2)"
        and s2: "stream ser2 = concat (map encode es) @ s" and l2: "same_link ser ser2"
        by blast
      have loop: "spr_loop v ser = spr_loop (spr_event v e) ser2"
        using more awake it by (simp add: spr_loop.simps [of v ser])
      from "1.prems"(4) evs
      have cnt: "length (release_times (spr_event v e)) + length (filter is_release es) = nspr_taps"
        by (auto simp: spr_event_releases split: if_splits)
      from "1.prems"(5) evs have lst: "es = [] \<or> is_release (last es)"
        by (cases es) simp_all
      from "1.IH" [OF more awake it refl es pes s2 cnt lst]
      obtain ser' where "spr_loop (spr_event v e) ser2 = Some (foldl spr_event (spr_event v e) es, ser')"
        and "stream ser' = s" and "same_link ser2 ser'"
        by blast
      with loop l2 evs show ?thesis
        by (auto intro: same_link_trans)
    qed
  qed
qed

section \<open>Observations and concrete inputs\<close>

text \<open>The tags of the taps in the record of a trial that has ended.\<close>

definition tap_tags :: "(error + vars \<times> serial) option \<Rightarrow> pyobj list option" where
  "tap_tags r = (case r of Some (Inr (v, ser)) \<Rightarrow> Some (tap_types v) | _ \<Rightarrow> None)"

text \<open>
  Concrete inputs: the variables before any trial, a timestamp with one significant byte,
  and a freshly opened port behind which the device sends the given chunks.
\<close>

definition no_vars :: vars where
  "no_vars = \<lparr>phase = Str [], tone_times = [], tap_types = [], tap_times = [], release_times = []\<rparr>"

definition stamp :: "char \<Rightarrow> bytes" where
  "stamp c = [c, CHR 0x00, CHR 0x00, CHR 0x00]"

definition device :: "bytes list \<Rightarrow> serial" where
  "device chunks = \<lparr>in_buf = [], wire = chunks, out_buf = [], is_open = True\<rparr>"

lemmas run_simps = sc_task_def trial_start_def no_vars_def stamp_def device_def write_bytes_def
  sc_loop.simps sc_iteration_def read_timestamp_def read_timestamp_loop.simps in_waiting_def
  deliver_def read_def silent_def reset_input_buffer_def set_last_def decode_def
  int_from_bytes_def Let_def tap_tags_def

section \<open>The trace S, T, S, T, C, T, T, I\<close>

text \<open>
  Claim C2, as stated: the trace gives the tap tags Sync, Continuation, Continuation.
  The trace has four taps, and the script records four tags: on a concrete device that
  sends the trace in one chunk the tags are \<^verbatim>\<open>['S', 'C', 'C', 'C']\<close>, not a list of three.
\<close>

theorem sc_trace_tags_counterexample:
  "tap_tags (sc_task ''2400'' no_vars
     (device [''S'' @ stamp (CHR 0x01) @ ''T'' @ stamp (CHR 0x02) @ ''S'' @ stamp (CHR 0x03) @
              ''T'' @ stamp (CHR 0x04) @ ''C'' @ stamp (CHR 0x05) @ ''T'' @ stamp (CHR 0x06) @
              ''T'' @ stamp (CHR 0x07) @ ''I'']))
   = Some [Str ''S'', Str ''C'', Str ''C'', Str ''C''] \<and>
   tap_tags (sc_task ''2400'' no_vars
     (device [''S'' @ stamp (CHR 0x01) @ ''T'' @ stamp (CHR 0x02) @ ''S'' @ stamp (CHR 0x03) @
              ''T'' @ stamp (CHR 0x04) @ ''C'' @ stamp (CHR 0x05) @ ''T'' @ stamp (CHR 0x06) @
              ''T'' @ stamp (CHR 0x07) @ ''I'']))
   \<noteq> Some [Str ''S'', Str ''C'', Str ''C'']"
  by (simp add: run_simps)

text \<open>
  Claim C2, amended: whatever the seven timestamps are and however the device spreads the
  bytes over time, the trial ends when \<^verbatim>\<open>I\<close> is read, with the four tap tags
  \<^verbatim>\<open>'S', 'C', 'C', 'C'\<close> (the tap just before \<^verbatim>\<open>C\<close> relabelled from \<^verbatim>\<open>'S'\<close>), the
  timestamps of the three tones in \<open>tone_times\<close> (the script stores no tag with a tone;
  \<open>phase\<close> ends as \<^verbatim>\<open>'C'\<close>), the four tap timestamps, and an empty input buffer.
\<close>

theorem sc_trace_record:
  assumes "length tone1 = 4" and "length tap1 = 4" and "length tone2 = 4" and "length tap2 = 4"
    and "length tone3 = 4" and "length tap3 = 4" and "length tap4 = 4"
    and "stream ser = ''S'' @ tone1 @ ''T'' @ tap1 @ ''S'' @ tone2 @ ''T'' @ tap2 @
           ''C'' @ tone3 @ ''T'' @ tap3 @ ''T'' @ tap4 @ ''I'' @ later"
  shows "\<exists>ser'. sc_task params v ser =
     Some (Inr (\<lparr>phase = Str ''C'',
                 tone_times = [int_from_bytes tone1, int_from_bytes tone2, int_from_bytes tone3],
                 tap_types = [Str ''S'', Str ''C'', Str ''C'', Str ''C''],
                 tap_times = [int_from_bytes tap1, int_from_bytes tap2, int_from_bytes tap3,
                              int_from_bytes tap4],
                 release_times = []\<rparr>, ser')) \<and>
     in_buf ser' = [] \<and> out_buf ser' = out_buf ser @ ''B'' @ params"
proof -
  let ?evs = "[Sync_tone tone1, Tap tap1, Sync_tone tone2, Tap tap2, Cont_tone tone3, Tap tap3,
               Tap tap4]"
  let ?ser = "write_bytes ser (''B'' @ params)"
  have fr: "framed ?evs"
    using assms(1-7) by (simp add: framed_def)
  have str: "stream ?ser = concat (map encode ?evs) @ ''I'' @ later"
    using assms(8) by (simp add: stream_def write_bytes_def)
  have run: "sc_events (trial_start v) ?evs =
     Inr \<lparr>phase = Str ''C'',
          tone_times = [int_from_bytes tone1, int_from_bytes tone2, int_from_bytes tone3],
          tap_types = [Str ''S'', Str ''C'', Str ''C'', Str ''C''],
          tap_times = [int_from_bytes tap1, int_from_bytes tap2, int_from_bytes tap3,
                       int_from_bytes tap4],
          release_times = []\<rparr>"
    by (cases v) (simp add: trial_start_def set_last_def)
  from sc_loop_events [OF fr str, of "trial_start v"] run
  show ?thesis
    by (auto simp: sc_task_def same_link_def write_bytes_def)
qed

theorem sc_trace_record_witness:
  "\<exists>ser'. sc_task ''2400'' no_vars
     (device [''S'' @ stamp (CHR 0x01) @ ''T'', stamp (CHR 0x02) @ ''S'' @ stamp (CHR 0x03), [],
              ''T'' @ stamp (CHR 0x04) @ ''C'' @ stamp (CHR 0x05) @ ''T'' @ stamp (CHR 0x06) @
              ''T'' @ stamp (CHR 0x07) @ ''I'' @ ''T'', stamp (CHR 0x08)]) =
     Some (Inr (\<lparr>phase = Str ''C'', tone_times = [1, 3, 5],
                 tap_types = [Str ''S'', Str ''C'', Str ''C'', Str ''C''],
                 tap_times = [2, 4, 6, 7], release_times = []\<rparr>, ser')) \<and>
     in_buf ser' = [] \<and> out_buf ser' = ''B2400''"
  using sc_trace_record [of "stamp (CHR 0x01)" "stamp (CHR 0x02)" "stamp (CHR 0x03)"
      "stamp (CHR 0x04)" "stamp (CHR 0x05)" "stamp (CHR 0x06)" "stamp (CHR 0x07)"
      "device [''S'' @ stamp (CHR 0x01) @ ''T'', stamp (CHR 0x02) @ ''S'' @ stamp (CHR 0x03), [],
              ''T'' @ stamp (CHR 0x04) @ ''C'' @ stamp (CHR 0x05) @ ''T'' @ stamp (CHR 0x06) @
              ''T'' @ stamp (CHR 0x07) @ ''I'' @ ''T'', stamp (CHR 0x08)]"
      "''T'' @ stamp (CHR 0x08)" "''2400''" no_vars]
  by (simp add: stamp_def device_def stream_def int_from_bytes_def)

section \<open>The end of the tap-counting task\<close>

lemma foldl_spr_event_releases:
  "length (release_times (foldl spr_event v evs)) =
   length (release_times v) + length (filter is_release evs)"
  by (induction evs arbitrary: v) (simp_all add: spr_event_releases)

text \<open>
  Claim C8: let the device send taps and releases, each with its timestamp, the last of
  them the 30th release, and then anything (\<open>later\<close>), spread over time in any way. Then
  the loop ends with exactly these events in the lists and with \<open>later\<close> unread: it
  stops when the 30th release is read, not before and not after. The task then writes
  \<^verbatim>\<open>I\<close> and resets the input buffer: the buffer is empty, and what was dropped is the
  part of \<open>later\<close> that had arrived by then.
\<close>

theorem spr_task_stops_at_target:
  assumes "framed evs" and "list_all is_press evs"
    and "length (filter is_release evs) = nspr_taps" and "is_release (last evs)"
    and "stream ser = concat (map encode evs) @ later"
  shows "\<exists>ser1 ser'.
     spr_loop (spr_start v) (write_bytes ser ''P'') = Some (foldl spr_event (spr_start v) evs, ser1) \<and>
     stream ser1 = later \<and>
     spr_task v ser = Some (foldl spr_event (spr_start v) evs, ser') \<and>
     length (release_times (foldl spr_event (spr_start v) evs)) = 30 \<and>
     out_buf ser' = out_buf ser @ ''PI'' \<and> in_buf ser' = [] \<and>
     (\<exists>dropped. later = dropped @ stream ser')"
proof -
  let ?ser = "write_bytes ser ''P''"
  let ?r = "foldl spr_event (spr_start v) evs"
  have str: "stream ?ser = concat (map encode evs) @ later"
    using assms(5) by (simp add: stream_def write_bytes_def)
  have cnt: "length (release_times (spr_start v)) + length (filter is_release evs) = nspr_taps"
    using assms(3) by (simp add: spr_start_def)
  from assms(4) have lst: "evs = [] \<or> is_release (last evs)"
    by simp
  from spr_loop_events [OF assms(1,2) str cnt lst]
  obtain ser1 where loop: "spr_loop (spr_start v) ?ser = Some (?r, ser1)"
    and s1: "stream ser1 = later" and l1: "same_link ?ser ser1"
    by blast
  let ?ser' = "reset_input_buffer (write_bytes ser1 ''I'')"
  from loop have task: "spr_task v ser = Some (?r, ?ser')"
    by (simp add: spr_task_def)
  have len: "length (release_times ?r) = 30"
    using assms(3) by (simp add: foldl_spr_event_releases spr_start_def nspr_taps_def)
  from l1 have out: "out_buf ?ser' = out_buf ser @ ''PI''"
    by (simp add: same_link_def write_bytes_def reset_input_buffer_def)
  have empty: "in_buf ?ser' = []"
    by (rule reset_input_buffer_facts)
  have "stream (write_bytes ser1 ''I'') = later"
    using s1 by (simp add: stream_def write_bytes_def)
  with reset_input_buffer_facts(3) [of "write_bytes ser1 ''I''"]
  have "\<exists>dropped. later = dropped @ stream ?ser'"
    by simp
  with loop s1 task len out empty show ?thesis
    by blast
qed

text \<open>A concrete session: thirty releases.\<close>

definition thirty_releases :: "event list" where
  "thirty_releases = replicate 30 (Release (stamp (CHR 0x01)))"

lemma thirty_releases_facts:
  shows "framed thirty_releases" and "list_all is_press thirty_releases"
    and "length (filter is_release thirty_releases) = nspr_taps"
    and "is_release (last thirty_releases)"
  by (simp_all add: thirty_releases_def framed_def stamp_def nspr_taps_def list_all_length)

theorem spr_task_stops_at_target_witness:
  "\<exists>ser1 ser'.
     spr_loop (spr_start no_vars)
       (write_bytes (device [concat (map encode thirty_releases), ''T'' @ stamp (CHR 0x02)]) ''P'')
       = Some (foldl spr_event (spr_start no_vars) thirty_releases, ser1) \<and>
     stream ser1 = ''T'' @ stamp (CHR 0x02) \<and>
     spr_task no_vars (device [concat (map encode thirty_releases), ''T'' @ stamp (CHR 0x02)])
       = Some (foldl spr_event (spr_start no_vars) thirty_releases, ser') \<and>
     length (release_times (foldl spr_event (spr_start no_vars) thirty_releases)) = 30 \<and>
     out_buf ser' = ''PI'' \<and> in_buf ser' = [] \<and>
     (\<exists>dropped. ''T'' @ stamp (CHR 0x02) = dropped @ stream ser')"
  using spr_task_stops_at_target [OF thirty_releases_facts,
      of "device [concat (map encode thirty_releases), ''T'' @ stamp (CHR 0x02)]"
         "''T'' @ stamp (CHR 0x02)" no_vars]
  by (simp add: device_def stream_def)


section \<open>The states at the head of the loops\<close>









section \<open>Tap types and tap times\<close>












section \<open>The tags of the taps\<close>







section \<open>The relabel at a continuation tone\<close>

text \<open>
  Claim C1: the relabel of the last tap happens at most once in a trial, at the first
  continuation tone; when the device signals Continuation, Sync, Continuation, the second
  Continuation does not relabel. The script runs the relabel at every continuation tone:
  the guard of line 289 compares the \<^verbatim>\<open>str\<close> \<open>phase\<close> with the \<^verbatim>\<open>bytes\<close>
  \<^verbatim>\<open>b'C'\<close>, which are never equal. On the trace S, T, C, S, T (then \<^verbatim>\<open>I\<close>) the second
  tap is tagged \<^verbatim>\<open>'S'\<close>; when one more \<^verbatim>\<open>C\<close> follows, that tap is relabelled too.
\<close>

theorem second_cont_tone_relabels_again:
  "tap_tags (sc_task ''2400'' no_vars
     (device [''S'' @ stamp (CHR 0x01) @ ''T'' @ stamp (CHR 0x02) @ ''C'' @ stamp (CHR 0x03) @
              ''S'' @ stamp (CHR 0x04) @ ''T'' @ stamp (CHR 0x05) @ ''I'']))
   = Some [Str ''C'', Str ''S''] \<and>
   tap_tags (sc_task ''2400'' no_vars
     (device [''S'' @ stamp (CHR 0x01) @ ''T'' @ stamp (CHR 0x02) @ ''C'' @ stamp (CHR 0x03) @
              ''S'' @ stamp (CHR 0x04) @ ''T'' @ stamp (CHR 0x05) @ ''C'' @ stamp (CHR 0x06) @
              ''I'']))
   = Some [Str ''C'', Str ''C'']"
  by (simp add: run_simps)

section \<open>A continuation tone before any tap\<close>

text \<open>The events that are neither a tap nor a continuation tone.\<close>

fun tapless :: "event \<Rightarrow> bool" where
  "tapless (Sync_tone ts) = True"
| "tapless (Release ts) = True"
| "tapless _ = False"

lemma sc_events_tapless:
  "list_all tapless evs \<Longrightarrow> tap_types v = [] \<Longrightarrow> phase v \<noteq> Bytes ''C'' \<Longrightarrow>
   \<exists>v'. sc_events v evs = Inr v' \<and> tap_types v' = [] \<and> phase v' \<noteq> Bytes ''C''"
proof (induction evs arbitrary: v)
  case Nil
  then show ?case by simp
next
  case (Cons e evs)
  from Cons.prems(1) have e: "tapless e" and rest: "list_all tapless evs"
    by simp_all
  from e obtain v1 where step: "sc_event v e = Inr v1" and "tap_types v1 = tap_types v"
    and "phase v1 = Str ''S'' \<or> phase v1 = phase v"
    by (cases e) auto
  with Cons.prems(2,3) have "tap_types v1 = []" and "phase v1 \<noteq> Bytes ''C''"
    by auto
  with Cons.IH [OF rest] obtain v' where "sc_events v1 evs = Inr v'" and "tap_types v' = []"
    and "phase v' \<noteq> Bytes ''C''"
    by blast
  with step show ?case
    by simp
qed

lemma sc_iteration_crash:
  assumes "stream ser = ''C'' @ s" and "in_waiting ser = (n, ser1)" and "0 < n"
    and "tap_types v = []" and "phase v \<noteq> Bytes ''C''"
  shows "sc_iteration v ser = Some (Inl IndexError)"
proof -
  obtain b ser2 where rd: "read ser1 = (b, ser2)"
    by (cases "read ser1")
  from assms(1) have str: "stream ser = CHR ''C'' # s"
    by simp
  from assms(2,3) rd str have b: "b = ''C''"
    by (rule read_facts)
  with assms(2-5) rd show ?thesis
    by (simp add: sc_iteration_def set_last_def)
qed

lemma sc_iteration_raises:
  assumes "sc_iteration v ser = Some (Inl e)"
  shows "e = IndexError \<and> tap_types v = []"
proof -
  obtain n ser1 where poll: "in_waiting ser = (n, ser1)"
    by (cases "in_waiting ser")
  obtain b ser2 where rd: "read ser1 = (b, ser2)"
    by (cases "read ser1")
  from assms poll rd show ?thesis
    by (auto simp: sc_iteration_def set_last_def split: if_splits option.splits sum.splits)
qed

lemma sc_loop_events_crash:
  "framed evs \<Longrightarrow> stream ser = concat (map encode evs) @ ''C'' @ s \<Longrightarrow>
   sc_events v evs = Inr v' \<Longrightarrow> tap_types v' = [] \<Longrightarrow> phase v' \<noteq> Bytes ''C'' \<Longrightarrow>
   sc_loop v ser = Some (Inl IndexError)"
proof (induction v ser arbitrary: evs rule: sc_loop.induct)
  case (1 v ser)
  from "1.prems"(2) have "stream ser \<noteq> []"
    by simp
  then have awake: "\<not> silent ser"
    by (rule stream_not_silent)
  obtain n ser1 where poll: "in_waiting ser = (n, ser1)"
    by (cases "in_waiting ser")
  show ?case
  proof (cases "0 < n")
    case False
    with poll have it: "sc_iteration v ser = Some (Inr (Next (v, ser1)))"
      by (rule sc_iteration_idle)
    from poll have "stream ser1 = stream ser"
      by (rule in_waiting_facts)
    with "1.prems"(2) have s1: "stream ser1 = concat (map encode evs) @ ''C'' @ s"
      by simp
    have "sc_loop v ser = sc_loop v ser1"
      using awake it by (simp add: sc_loop.simps [of v ser])
    with "1.IH" [OF awake it refl refl refl "1.prems"(1) s1 "1.prems"(3,4,5)] show ?thesis
      by simp
  next
    case True
    show ?thesis
    proof (cases evs)
      case Nil
      with "1.prems" have "stream ser = ''C'' @ s" and "tap_types v = []"
        and "phase v \<noteq> Bytes ''C''"
        by simp_all
      from this(1) poll True this(2,3) have "sc_iteration v ser = Some (Inl IndexError)"
        by (rule sc_iteration_crash)
      with awake show ?thesis
        by (simp add: sc_loop.simps [of v ser])
    next
      case (Cons e es)
      with "1.prems" have str: "stream ser = encode e @ (concat (map encode es) @ ''C'' @ s)"
        and e: "length (payload e) = 4" and es: "framed es"
        by (simp_all add: framed_def)
      from "1.prems"(3) Cons obtain v1 where ev: "sc_event v e = Inr v1"
        and rest: "sc_events v1 es = Inr v'"
        by (auto split: sum.splits)
      with sc_iteration_event [OF str e poll True, of v]
      obtain ser' where it: "sc_iteration v ser = Some (Inr (Next (v1, ser')))"
        and s': "stream ser' = concat (map encode es) @ ''C'' @ s"
        by auto
      have "sc_loop v ser = sc_loop v1 ser'"
        using awake it by (simp add: sc_loop.simps [of v ser])
      with "1.IH" [OF awake it refl refl refl es s' rest "1.prems"(4,5)] show ?thesis
        by simp
    qed
  qed
qed

text \<open>
  Claim C10: when the device sends \<^verbatim>\<open>C\<close> before it has sent any tap (sync tones and
  releases only before it, spread over time in any way), line 290 assigns to
  \<^verbatim>\<open>tap_types[-1]\<close> of the empty list and the trial ends in an \<^verbatim>\<open>IndexError\<close> that
  nothing catches. It is the only exception a pass of the loop raises, and it needs
  \<open>tap_types\<close> to be empty: the assignment fails exactly on the empty list.
\<close>

theorem cont_tone_before_any_tap_raises:
  "(framed evs \<and> list_all tapless evs \<and> stream ser = concat (map encode evs) @ ''C'' @ later \<longrightarrow>
      sc_task params v ser = Some (Inl IndexError)) \<and>
   (sc_iteration v1 ser1 = Some (Inl e) \<longrightarrow> e = IndexError \<and> tap_types v1 = []) \<and>
   ((set_last xs x = Inl IndexError) = (xs = []))"
proof (intro conjI impI)
  {
    assume pre: "framed evs \<and> list_all tapless evs \<and>
        stream ser = concat (map encode evs) @ ''C'' @ later"
    let ?ser = "write_bytes ser (''B'' @ params)"
    from pre have str: "stream ?ser = concat (map encode evs) @ ''C'' @ later"
      by (simp add: stream_def write_bytes_def)
    have "tap_types (trial_start v) = []" and "phase (trial_start v) \<noteq> Bytes ''C''"
      by (simp_all add: trial_start_def)
    with pre obtain v' where "sc_events (trial_start v) evs = Inr v'" and "tap_types v' = []"
      and "phase v' \<noteq> Bytes ''C''"
      using sc_events_tapless [of evs "trial_start v"] by blast
    with pre str have "sc_loop (trial_start v) ?ser = Some (Inl IndexError)"
      by (blast intro: sc_loop_events_crash)
    then show "sc_task params v ser = Some (Inl IndexError)"
      by (simp add: sc_task_def)
  }
  {
    assume "sc_iteration v1 ser1 = Some (Inl e)"
    then have "e = IndexError \<and> tap_types v1 = []"
      by (rule sc_iteration_raises)
    then show "e = IndexError" and "tap_types v1 = []"
      by simp_all
  }
  show "(set_last xs x = Inl IndexError) = (xs = [])"
    by (simp add: set_last_def)
qed

theorem cont_tone_before_any_tap_raises_witness:
  "sc_task ''2400'' no_vars
     (device [''S'' @ stamp (CHR 0x01) @ ''R'', stamp (CHR 0x02) @ ''C'' @ stamp (CHR 0x03) @ ''I''])
     = Some (Inl IndexError) \<and>
   sc_iteration (trial_start no_vars) (device [''C'' @ stamp (CHR 0x03)]) = Some (Inl IndexError) \<and>
   tap_types (trial_start no_vars) = [] \<and>
   set_last ([] :: pyobj list) (Str ''C'') = Inl IndexError"
proof -
  note inst = cont_tone_before_any_tap_raises
      [of "[Sync_tone (stamp (CHR 0x01)), Release (stamp (CHR 0x02))]"
        "device [''S'' @ stamp (CHR 0x01) @ ''R'', stamp (CHR 0x02) @ ''C'' @ stamp (CHR 0x03) @ ''I'']"
        "stamp (CHR 0x03) @ ''I''" "''2400''" no_vars
        "trial_start no_vars" "device [''C'' @ stamp (CHR 0x03)]" IndexError
        "[] :: pyobj list" "Str ''C''"]
  have "framed [Sync_tone (stamp (CHR 0x01)), Release (stamp (CHR 0x02))] \<and>
      list_all tapless [Sync_tone (stamp (CHR 0x01)), Release (stamp (CHR 0x02))] \<and>
      stream (device [''S'' @ stamp (CHR 0x01) @ ''R'',
          stamp (CHR 0x02) @ ''C'' @ stamp (CHR 0x03) @ ''I'']) =
        concat (map encode [Sync_tone (stamp (CHR 0x01)), Release (stamp (CHR 0x02))]) @ ''C'' @
          stamp (CHR 0x03) @ ''I''"
    by (simp add: framed_def stamp_def device_def stream_def)
  with inst have "sc_task ''2400'' no_vars
     (device [''S'' @ stamp (CHR 0x01) @ ''R'', stamp (CHR 0x02) @ ''C'' @ stamp (CHR 0x03) @ ''I''])
     = Some (Inl IndexError)"
    by blast
  moreover
  have it: "sc_iteration (trial_start no_vars) (device [''C'' @ stamp (CHR 0x03)]) =
      Some (Inl IndexError)"
    by (simp add: run_simps)
  moreover from inst it have "tap_types (trial_start no_vars) = []"
    by blast
  moreover from inst have "set_last ([] :: pyobj list) (Str ''C'') = Inl IndexError"
    by blast
  ultimately show ?thesis
    by blast
qed

section \<open>The answer to the hello byte\<close>

text \<open>
  The loop looks at the port once a second. While the chunks that arrive are empty it
  goes on, for as many passes as it has left; the first byte of the first chunk that is
  not empty decides.
\<close>

lemma hello_loop_silent:
  "in_buf ser = [] \<Longrightarrow> list_all (\<lambda>c. c = []) (take i (wire ser)) \<Longrightarrow>
   hello_loop i ser = (Some Exception_no_response, ser\<lparr>wire := drop i (wire ser)\<rparr>)"
proof (induction i arbitrary: ser)
  case 0
  then show ?case by simp
next
  case (Suc i)
  show ?case
  proof (cases "wire ser")
    case Nil
    with Suc.prems have poll: "in_waiting ser = (0, ser)"
      by (simp add: in_waiting_def deliver_def)
    from Nil Suc.prems have "hello_loop i ser =
        (Some Exception_no_response, ser\<lparr>wire := drop i (wire ser)\<rparr>)"
      by (intro Suc.IH) simp_all
    with poll Nil show ?thesis
      by simp
  next
    case (Cons c cs)
    with Suc.prems have c: "c = []" and cs: "list_all (\<lambda>c. c = []) (take i cs)"
      by simp_all
    let ?ser1 = "ser\<lparr>in_buf := [], wire := cs\<rparr>"
    from Cons c Suc.prems(1) have poll: "in_waiting ser = (0, ?ser1)"
      by (simp add: in_waiting_def deliver_def)
    from cs have "hello_loop i ?ser1 =
        (Some Exception_no_response, ?ser1\<lparr>wire := drop i (wire ?ser1)\<rparr>)"
      by (intro Suc.IH) simp_all
    with poll Cons Suc.prems(1) show ?thesis
      by simp
  qed
qed

lemma hello_loop_answer:
  "in_buf ser = [] \<Longrightarrow> wire ser = replicate k [] @ (b # bs) # rest \<Longrightarrow> k < i \<Longrightarrow>
   hello_loop i ser =
     (if b = CHR ''I'' then None else Some (Exception_unexpected_response [b]),
      ser\<lparr>in_buf := bs, wire := rest\<rparr>)"
proof (induction k arbitrary: i ser)
  case 0
  then obtain j where i: "i = Suc j"
    by (cases i) auto
  from 0 have poll: "in_waiting ser = (Suc (length bs), ser\<lparr>in_buf := b # bs, wire := rest\<rparr>)"
    by (simp add: in_waiting_def deliver_def)
  have "read (ser\<lparr>in_buf := b # bs, wire := rest\<rparr>) = ([b], ser\<lparr>in_buf := bs, wire := rest\<rparr>)"
    by (simp add: read_def)
  with poll i show ?case
    by simp
next
  case (Suc k)
  then obtain j where i: "i = Suc j" and kj: "k < j"
    by (cases i) auto
  let ?ser1 = "ser\<lparr>in_buf := [], wire := replicate k [] @ (b # bs) # rest\<rparr>"
  from Suc.prems have poll: "in_waiting ser = (0, ?ser1)"
    by (simp add: in_waiting_def deliver_def)
  from kj have "hello_loop j ?ser1 =
     (if b = CHR ''I'' then None else Some (Exception_unexpected_response [b]),
      ?ser1\<lparr>in_buf := bs, wire := rest\<rparr>)"
    by (intro Suc.IH) simp_all
  with poll i show ?case
    by simp
qed

text \<open>
  Claim C7: after the input is cleared and \<^verbatim>\<open>H\<close> is written, the script looks at the
  port at most five times, a second apart. If the first byte to arrive comes at one of
  these five looks (at look \<open>k + 1\<close>, after \<open>k < 5\<close> looks that found nothing), it is
  read, alone: the step succeeds when it is \<^verbatim>\<open>I\<close> and fails with the exception that
  carries the byte otherwise. If the five looks find nothing, the step fails with the
  exception for no response, and five chunks of the device are used up. The two cases
  cover every device.
\<close>

theorem hello_ack_outcomes:
  "(k < 5 \<and> wire (reset_input_buffer ser1) = replicate k [] @ (b # bs) # rest \<longrightarrow>
      hello_ack ser1 =
        (if b = CHR ''I'' then None else Some (Exception_unexpected_response [b]),
         \<lparr>in_buf = bs, wire = rest, out_buf = out_buf ser1 @ ''H'', is_open = is_open ser1\<rparr>)) \<and>
   (list_all (\<lambda>c. c = []) (take 5 (wire (reset_input_buffer ser2))) \<longrightarrow>
      hello_ack ser2 =
        (Some Exception_no_response,
         \<lparr>in_buf = [], wire = drop 5 (wire (reset_input_buffer ser2)),
          out_buf = out_buf ser2 @ ''H'', is_open = is_open ser2\<rparr>))"
proof (intro conjI impI)
  have start: "in_buf (write_bytes (reset_input_buffer ser) ''H'') = []"
    "wire (write_bytes (reset_input_buffer ser) ''H'') = wire (reset_input_buffer ser)"
    "out_buf (write_bytes (reset_input_buffer ser) ''H'') = out_buf ser @ ''H''"
    "is_open (write_bytes (reset_input_buffer ser) ''H'') = is_open ser" for ser
    by (simp_all add: write_bytes_def reset_input_buffer_def)
  {
    assume "k < 5 \<and> wire (reset_input_buffer ser1) = replicate k [] @ (b # bs) # rest"
    with start [of ser1] hello_loop_answer [of "write_bytes (reset_input_buffer ser1) ''H''" k b bs rest 5]
    show "hello_ack ser1 =
        (if b = CHR ''I'' then None else Some (Exception_unexpected_response [b]),
         \<lparr>in_buf = bs, wire = rest, out_buf = out_buf ser1 @ ''H'', is_open = is_open ser1\<rparr>)"
      by (cases "write_bytes (reset_input_buffer ser1) ''H''") (simp add: hello_ack_def)
  }
  {
    assume "list_all (\<lambda>c. c = []) (take 5 (wire (reset_input_buffer ser2)))"
    with start [of ser2] hello_loop_silent [of "write_bytes (reset_input_buffer ser2) ''H''" 5]
    show "hello_ack ser2 =
        (Some Exception_no_response,
         \<lparr>in_buf = [], wire = drop 5 (wire (reset_input_buffer ser2)),
          out_buf = out_buf ser2 @ ''H'', is_open = is_open ser2\<rparr>)"
      by (cases "write_bytes (reset_input_buffer ser2) ''H''") (simp add: hello_ack_def)
  }
qed


theorem hello_ack_outcomes_witness:
  "hello_ack (device [''junk'', [], ''I'']) =
     (None, \<lparr>in_buf = [], wire = [], out_buf = ''H'', is_open = True\<rparr>) \<and>
   hello_ack (device [[], ''XI'']) =
     (Some (Exception_unexpected_response ''X''),
      \<lparr>in_buf = ''I'', wire = [], out_buf = ''H'', is_open = True\<rparr>) \<and>
   hello_ack (device [''x'', [], [], [], [], [], ''I'']) =
     (Some Exception_no_response,
      \<lparr>in_buf = [], wire = [''I''], out_buf = ''H'', is_open = True\<rparr>)"
proof -
  have "hello_ack (device [''junk'', [], ''I'']) =
     (None, \<lparr>in_buf = [], wire = [], out_buf = ''H'', is_open = True\<rparr>)"
    using hello_ack_outcomes [of 1 "device [''junk'', [], ''I'']" "CHR ''I''" "[]" "[]"]
    by (simp add: device_def reset_input_buffer_def deliver_def)
  moreover have "hello_ack (device [[], ''XI'']) =
     (Some (Exception_unexpected_response ''X''),
      \<lparr>in_buf = ''I'', wire = [], out_buf = ''H'', is_open = True\<rparr>)"
    using hello_ack_outcomes [of 0 "device [[], ''XI'']" "CHR ''X''" "''I''" "[]"]
    by (simp add: device_def reset_input_buffer_def deliver_def)
  moreover have "hello_ack (device [''x'', [], [], [], [], [], ''I'']) =
     (Some Exception_no_response,
      \<lparr>in_buf = [], wire = [''I''], out_buf = ''H'', is_open = True\<rparr>)"
    using hello_ack_outcomes [of _ _ _ _ _ "device [''x'', [], [], [], [], [], ''I'']"]
    by (simp add: device_def reset_input_buffer_def deliver_def)
  ultimately show ?thesis
    by blast
qed

section \<open>The connection test as a whole\<close>

text \<open>
  Two runs of the whole \<^verbatim>\<open>try\<close> statement: the banner and then \<^verbatim>\<open>I\<close> at the second
  look lead on with the link open; another banner leads to the handler, which closes the
  link and the window.
\<close>

lemmas connect_simps = connect_def handler_def handshake_def hello_ack_def banner_loop.simps
  readline_def ready_banner_def close_def write_bytes_def reset_input_buffer_def deliver_def
  in_waiting_def read_def Let_def

lemma handshake_scenario_A:
  "connect (Some \<lparr>in_buf = [], wire = [ready_banner, [], [], [], ''I''], out_buf = [],
      is_open = False\<rparr>) =
     (Connected,
      \<lparr>arduino_ser = Some \<lparr>in_buf = [], wire = [], out_buf = ''H'', is_open = True\<rparr>,
       win_open = True\<rparr>)"
  by (simp add: connect_simps numeral_nat)

lemma handshake_scenario_B:
  "connect (Some \<lparr>in_buf = [], wire = [''NotReady'' @ [CHR 0x0D, CHR 0x0A]], out_buf = [],
      is_open = False\<rparr>) =
     (Quit,
      \<lparr>arduino_ser = Some \<lparr>in_buf = [], wire = [], out_buf = [], is_open = False\<rparr>,
       win_open = False\<rparr>)"
  by (simp add: connect_simps)

text \<open>
  Once the port is open, every failure of the handshake ends in the handler's
  \<^verbatim>\<open>core.quit()\<close> with the link and the window closed.
\<close>

lemma is_open_handshake_link:
  "connect (Some dev) = (ending, h) \<Longrightarrow> \<exists>ser. arduino_ser h = Some ser"
  by (auto simp: connect_def handler_def split: prod.splits option.splits)

lemma connect_failure_closes:
  assumes "connect (Some dev) = (ending, h)" and "ending \<noteq> Connected"
  shows "ending = Quit \<and> \<not> win_open h \<and> (\<exists>ser. arduino_ser h = Some ser \<and> \<not> is_open ser)"
  using assms by (auto simp: connect_def handler_def close_def split: prod.splits option.splits)

text \<open>
  Claim C9: the link is closed on every failure path of the connection test, the failure
  to open the port among them. When \<^verbatim>\<open>ser.Serial(...)\<close> raises, the name
  \<^verbatim>\<open>arduino_ser\<close> is not bound; the handler's \<^verbatim>\<open>arduino_ser.close()\<close> raises
  \<^verbatim>\<open>NameError\<close>, and the script ends there, with no \<^verbatim>\<open>close\<close> done and the window
  still open.
\<close>

theorem open_failure_is_not_handled:
  "connect None = (Uncaught NameError, \<lparr>arduino_ser = None, win_open = True\<rparr>)"
  by (simp add: connect_def handler_def)

section \<open>The score as a standard deviation\<close>


definition successive_differences :: "int list \<Rightarrow> int list" where
  "successive_differences ts = [ts ! (i + 1) - ts ! i. i \<leftarrow> [0..<length ts - 1]]"




lemma diff_by_index: "diff a = successive_differences a"
proof -
  have "zip a (tl a) = map (\<lambda>i. (a ! i, a ! (i + 1))) [0..<length a - 1]"
    by (rule nth_equalityI) (auto simp: nth_tl)
  then show ?thesis
    by (simp add: diff_def successive_differences_def o_def)
qed



lemma length_successive_differences [simp]:
  "length (successive_differences ts) = length ts - 1"
  by (simp add: successive_differences_def)


lemma length_masked:
  "length xs = length ys \<Longrightarrow>
   length (filter (\<lambda>(x, y). x = c) (zip xs ys)) = length (filter (\<lambda>x. x = c) xs)"
  by (induction xs ys rule: list_induct2) simp_all

text \<open>
  Claim C3, as stated: on a record with fewer than two Continuation taps the score
  computation fails with \<open>InsufficientData\<close>. The script has no such error: on a record
  with one Continuation tap, line 304 raises \<^verbatim>\<open>ValueError\<close>.
\<close>

theorem score_single_continuation_tap_counterexample:
  "cont_score \<lparr>phase = Str ''C'', tone_times = [50, 250], tap_types = [Str ''S'', Str ''C''],
      tap_times = [100, 300], release_times = []\<rparr> = Inl ValueError \<and>
   cont_score \<lparr>phase = Str ''C'', tone_times = [50, 250], tap_types = [Str ''S'', Str ''C''],
      tap_times = [100, 300], release_times = []\<rparr> \<noteq> Inl InsufficientData"
  by (simp add: cont_score_def cont_times_def diff_def std_def int_of_float_def)

text \<open>
  Claim C3, amended: on every record with fewer than two taps tagged \<^verbatim>\<open>'C'\<close> the score
  computation yields no score; it raises \<^verbatim>\<open>ValueError\<close>, from \<^verbatim>\<open>int\<close> of the NaN that
  the standard deviation of no differences is.
\<close>

theorem score_needs_two_continuation_taps:
  assumes "length (tap_types v) = length (tap_times v)"
    and "length (filter (\<lambda>ty. ty = Str ''C'') (tap_types v)) < 2"
  shows "cont_score v = Inl ValueError"
proof -
  let ?ct = "map snd (filter (\<lambda>(ty, t). ty = Str ''C'') (zip (tap_types v) (tap_times v)))"
  from assms have "length ?ct < 2"
    by (simp add: length_masked)
  then have "diff ?ct = []"
    by (simp add: diff_by_index successive_differences_def)
  with assms(1) show ?thesis
    by (simp add: cont_score_def cont_times_def std_def int_of_float_def)
qed

theorem score_needs_two_continuation_taps_witness:
  "cont_score \<lparr>phase = Str ''C'', tone_times = [50], tap_types = [Str ''S'', Str ''C''],
      tap_times = [100, 300], release_times = []\<rparr> = Inl ValueError \<and>
   cont_score \<lparr>phase = Str ''B'', tone_times = [], tap_types = [], tap_times = [],
      release_times = []\<rparr> = Inl ValueError"
  using score_needs_two_continuation_taps [of "\<lparr>phase = Str ''C'', tone_times = [50],
      tap_types = [Str ''S'', Str ''C''], tap_times = [100, 300], release_times = []\<rparr>"]
    score_needs_two_continuation_taps [of "\<lparr>phase = Str ''B'', tone_times = [],
      tap_types = [], tap_times = [], release_times = []\<rparr>"]
  by simp




end
